theory Spec2Isabelle
  imports Complex_Main
begin

section \<open>The page as the scraper observes it\<close>

text \<open>
  The scraper of \<^verbatim>\<open>scrape_vvvfast.py\<close> talks to a browser page through
  \<^verbatim>\<open>page.evaluate\<close>. The JavaScript snippets it sends read a handful of DOM
  attributes; the records below hold exactly those. Texts are ASCII strings and lengths
  are integers (fractional scroll offsets are outside this model).

  An \<open>element\<close> carries what \<^verbatim>\<open>getScroller\<close> and the scroll step read:
  the tag name, whether the node is \<^verbatim>\<open>document.body\<close>, the computed
  \<^verbatim>\<open>overflowY\<close>, and the three scroll measures. A \<open>tr\<close> is one match of
  \<^verbatim>\<open>tbody tr\<close>: whether its \<^verbatim>\<open>offsetParent\<close> is null, and the
  \<^verbatim>\<open>innerText\<close> of each of its \<^verbatim>\<open>td\<close> cells. A \<open>table_el\<close> is the
  element found by \<^verbatim>\<open>document.querySelector(sel)\<close>: its rows, the chain that
  starts at the table and follows \<^verbatim>\<open>parentElement\<close> to the root, and its
  descendant elements in document order.
\<close>

record element =
  tag :: string
  is_body :: bool
  overflowY :: string
  scrollTop :: int
  scrollHeight :: nat
  clientHeight :: nat

record tr =
  offsetParent_null :: bool
  tds :: "string list"

record table_el =
  trs :: "tr list"
  chain :: "element list"
  descendants :: "element list"

record document =
  table :: "table_el option"
  body_text :: string

section \<open>Row extraction\<close>

text \<open>
  \<^verbatim>\<open>String.prototype.trim\<close> on ASCII text: tab, line feed, vertical tab, form
  feed, carriage return and space are removed from both ends.
\<close>

definition js_space :: "char \<Rightarrow> bool" where
  "js_space c \<longleftrightarrow> c \<in> set [CHR 0x09, CHR 0x0A, CHR 0x0B, CHR 0x0C, CHR 0x0D, CHR 0x20]"

definition trim :: "string \<Rightarrow> string" where
  "trim s = rev (dropWhile js_space (rev (dropWhile js_space s)))"

text \<open>
  The script of \<^verbatim>\<open>extract_new_products\<close>: no table gives the empty array;
  otherwise the rows with a non-null \<^verbatim>\<open>offsetParent\<close>, each mapped to the
  trimmed texts of its cells.
\<close>

definition read_rows :: "document \<Rightarrow> string list list" where
  "read_rows doc =
     (case table doc of
        None \<Rightarrow> []
      | Some t \<Rightarrow> map (\<lambda>r. map trim (tds r)) (filter (\<lambda>r. \<not> offsetParent_null r) (trs t)))"

record item =
  item_id :: string
  category :: string
  color :: string
  dimensions :: string
  price :: string
  product :: string
  score :: string
  cells :: "string list"

text \<open>\<^verbatim>\<open>cells[k] if len(cells) > k else ""\<close>\<close>

definition cell_or_empty :: "string list \<Rightarrow> nat \<Rightarrow> string" where
  "cell_or_empty cs k = (if length cs > k then cs ! k else '''')"

definition make_item :: "string \<Rightarrow> string list \<Rightarrow> item" where
  "make_item row_id cs =
     \<lparr> item_id = row_id,
       category = cell_or_empty cs 1,
       color = cell_or_empty cs 2,
       dimensions = cell_or_empty cs 3,
       price = cell_or_empty cs 4,
       product = cell_or_empty cs 5,
       score = cell_or_empty cs 6,
       cells = cs \<rparr>"

text \<open>
  The \<^verbatim>\<open>for cells in rows\<close> loop. The set \<^verbatim>\<open>seen_ids\<close> is mutated in
  place by the source, so the model returns it next to \<^verbatim>\<open>new_items\<close>.
\<close>

fun collect_rows :: "string list list \<Rightarrow> string set \<Rightarrow> item list \<Rightarrow> item list \<times> string set" where
  "collect_rows [] seen new_items = (new_items, seen)"
| "collect_rows (cs # rest) seen new_items =
     (case cs of
        [] \<Rightarrow> collect_rows rest seen new_items
      | row_id # _ \<Rightarrow>
          if row_id = '''' \<or> row_id \<in> seen then collect_rows rest seen new_items
          else collect_rows rest (insert row_id seen) (new_items @ [make_item row_id cs]))"

definition extract_new_products :: "document \<Rightarrow> string set \<Rightarrow> item list \<times> string set" where
  "extract_new_products doc seen = collect_rows (read_rows doc) seen []"

section \<open>Resolving the scroller and scrolling it\<close>

definition scrollable :: "element \<Rightarrow> bool" where
  "scrollable e \<longleftrightarrow>
     (overflowY e = ''auto'' \<or> overflowY e = ''scroll'') \<and> scrollHeight e > clientHeight e + 1"

text \<open>
  \<^verbatim>\<open>while (node && node !== document.body)\<close>: the list is the table followed by
  its parents; it ends where \<^verbatim>\<open>parentElement\<close> is null.
\<close>

fun walk_up :: "element list \<Rightarrow> element option" where
  "walk_up [] = None"
| "walk_up (node # parents) =
     (if is_body node then None
      else if scrollable node then Some node
      else walk_up parents)"

text \<open>\<^verbatim>\<open>for (const d of table.querySelectorAll('div'))\<close>\<close>

fun search_divs :: "element list \<Rightarrow> element option" where
  "search_divs [] = None"
| "search_divs (d # ds) = (if scrollable d then Some d else search_divs ds)"

definition query_divs :: "table_el \<Rightarrow> element list" where
  "query_divs t = filter (\<lambda>d. tag d = ''div'') (descendants t)"

definition getScroller :: "table_el \<Rightarrow> element option" where
  "getScroller t =
     (case walk_up (chain t) of
        Some node \<Rightarrow> Some node
      | None \<Rightarrow> search_divs (query_divs t))"

text \<open>
  The value returned by the scroll script: \<^verbatim>\<open>{ok:false, reason:'no-table'}\<close>,
  \<^verbatim>\<open>{ok:false, reason:'no-scroller'}\<close> or \<^verbatim>\<open>{ok:true, prev, now, max}\<close>.
\<close>

datatype scrolled = NoTable | NoScroller | Scrolled (prev: int) (now: int) (max_scroll: int)

text \<open>
  The scroll script. The assignment \<^verbatim>\<open>scroller.scrollTop = next\<close> is a store,
  and \<^verbatim>\<open>now\<close> is read back from the element. The second component is the
  scroller after the assignment, \<open>None\<close> when nothing was written.
\<close>

definition scroll_step :: "document \<Rightarrow> scrolled \<times> element option" where
  "scroll_step doc =
     (case table doc of
        None \<Rightarrow> (NoTable, None)
      | Some t \<Rightarrow>
          (case getScroller t of
             None \<Rightarrow> (NoScroller, None)
           | Some scroller \<Rightarrow>
               let prev = scrollTop scroller;
                   max = int (scrollHeight scroller) - int (clientHeight scroller);
                   next = min (prev + int (clientHeight scroller)) max;
                   scroller' = scroller\<lparr>scrollTop := next\<rparr>
               in (Scrolled prev (scrollTop scroller') max, Some scroller')))"

text \<open>The script run once before the loop: \<^verbatim>\<open>if (scroller) scroller.scrollTop = 0\<close>.\<close>

definition reset_to_top :: "document \<Rightarrow> element option" where
  "reset_to_top doc =
     (case table doc of
        None \<Rightarrow> None
      | Some t \<Rightarrow> map_option (\<lambda>scroller. scroller\<lparr>scrollTop := 0\<rparr>) (getScroller t))"

section \<open>The harvest loop\<close>

text \<open>
  What the page shows in each round is decided by the browser and the virtualising
  widget, not by the scraper, so a run is parameterised by \<open>page\<close>: the document that
  the two scripts of round \<open>n\<close> observe, where \<open>n\<close> is the value of
  \<^verbatim>\<open>attempts\<close> after its increment (rounds are numbered from 1). Every statement
  below holds for all such pages. Failures of the driver itself (an exception out of
  \<^verbatim>\<open>page.evaluate\<close>) are outside this model.

  The lines the function prints are kept as a list of messages; \<^verbatim>\<open>pct\<close> is the
  exact quotient rather than a rounded float.
\<close>

datatype message =
    Starting int
  | Progress nat real
  | Stopping
  | Complete nat nat

record harvest_state =
  products :: "item list"
  seen_ids :: "string set"
  attempts :: nat
  no_progress_rounds :: nat
  last_count :: nat
  printed :: "message list"

definition safety_ceiling :: nat where
  "safety_ceiling = 20000"

definition progress_accounting :: "harvest_state \<Rightarrow> harvest_state" where
  "progress_accounting st =
     (if length (products st) > last_count st
      then st\<lparr>last_count := length (products st), no_progress_rounds := 0\<rparr>
      else st\<lparr>no_progress_rounds := no_progress_rounds st + 1\<rparr>)"

definition pct :: "nat \<Rightarrow> int \<Rightarrow> real" where
  "pct n target_count = (if target_count \<noteq> 0 then real n / real_of_int target_count * 100 else 0)"

definition report_progress :: "int \<Rightarrow> harvest_state \<Rightarrow> harvest_state" where
  "report_progress target_count st =
     (if attempts st mod 25 = 0
      then st\<lparr>printed := printed st @ [Progress (length (products st)) (pct (length (products st)) target_count)]\<rparr>
      else st)"

text \<open>One round of the \<^verbatim>\<open>while\<close> body, up to the scroll script.\<close>

definition round_body :: "(nat \<Rightarrow> document) \<Rightarrow> int \<Rightarrow> harvest_state \<Rightarrow> harvest_state" where
  "round_body page target_count st =
     (let st1 = st\<lparr>attempts := attempts st + 1\<rparr>;
          (new_rows, seen') = extract_new_products (page (attempts st1)) (seen_ids st1);
          st2 = st1\<lparr>seen_ids := seen',
                    products := (if new_rows \<noteq> [] then products st1 @ new_rows else products st1)\<rparr>
      in report_progress target_count (progress_accounting st2))"

text \<open>
  \<^verbatim>\<open>at_bottom\<close> is set only under \<^verbatim>\<open>scrolled.get("ok")\<close>; \<open>no_movement\<close>
  is the condition of the outer \<^verbatim>\<open>if\<close>, \<open>should_stop\<close> the two nested tests that
  lead to \<^verbatim>\<open>break\<close>.
\<close>

fun at_bottom :: "scrolled \<Rightarrow> bool" where
  "at_bottom (Scrolled p n m) = (n \<ge> m)"
| "at_bottom _ = False"

fun no_movement :: "scrolled \<Rightarrow> bool" where
  "no_movement (Scrolled p n m) = (n = p)"
| "no_movement _ = True"

definition should_stop :: "scrolled \<Rightarrow> nat \<Rightarrow> bool" where
  "should_stop s np = (if no_movement s then (if at_bottom s \<and> np \<ge> 5 then True else False) else False)"

datatype completion = Exhausted | SafetyCeilingReached

function harvest_loop :: "(nat \<Rightarrow> document) \<Rightarrow> int \<Rightarrow> harvest_state \<Rightarrow> completion \<times> harvest_state" where
  "harvest_loop page target_count st =
     (if attempts st < safety_ceiling then
        (if should_stop (fst (scroll_step (page (Suc (attempts st)))))
                        (no_progress_rounds (round_body page target_count st))
         then (Exhausted,
               (round_body page target_count st)
                 \<lparr>printed := printed (round_body page target_count st) @ [Stopping]\<rparr>)
         else harvest_loop page target_count (round_body page target_count st))
      else (SafetyCeilingReached, st))"
  by pat_completeness auto

text \<open>
  The function returns \<^verbatim>\<open>products\<close> only. The number of rounds is what its last
  line prints; the completion reason is the way the loop was left: through
  \<^verbatim>\<open>break\<close> (which prints the "Stopping" line first) or through the loop
  condition.
\<close>

record harvest_result =
  harvested :: "item list"
  rounds :: nat
  reason :: completion
  transcript :: "message list"

definition initial_state :: "int \<Rightarrow> harvest_state" where
  "initial_state target_count =
     \<lparr> products = [], seen_ids = {}, attempts = 0, no_progress_rounds = 0, last_count = 0,
       printed = [Starting target_count] \<rparr>"

termination harvest_loop
  by (relation "measure (\<lambda>(page, tc, st). safety_ceiling - attempts st)")
     (auto simp: round_body_def Let_def split_beta progress_accounting_def report_progress_def)

definition scroll_and_collect_all :: "(nat \<Rightarrow> document) \<Rightarrow> int \<Rightarrow> harvest_result" where
  "scroll_and_collect_all page target_count =
     (let (why, st) = harvest_loop page target_count (initial_state target_count)
      in \<lparr> harvested = products st,
           rounds = attempts st,
           reason = why,
           transcript = printed st @ [Complete (length (products st)) (attempts st)] \<rparr>)"

section \<open>Reading the target count from the banner\<close>

text \<open>
  \<^verbatim>\<open>main\<close> lower-cases the page text and searches it with the pattern written
  \<^verbatim>\<open>r'showing\\s+\\d+\\s+of\\s+(\\d+)'\<close>. In a raw string each
  \<^verbatim>\<open>\\\<close> stays two characters, which the regular-expression syntax reads as
  one literal backslash. The pattern is therefore the sequence: \<^verbatim>\<open>showing\<close>, a
  backslash, one or more \<^verbatim>\<open>s\<close>, a backslash, one or more \<^verbatim>\<open>d\<close>, a
  backslash, one or more \<^verbatim>\<open>s\<close>, \<^verbatim>\<open>of\<close>, a backslash, one or more
  \<^verbatim>\<open>s\<close>, and the group: a backslash and one or more \<^verbatim>\<open>d\<close>.
  Every repetition is followed by a character it cannot match (or ends the pattern), so
  matching the longest run is the only way to match and no backtracking is needed.
\<close>

definition backslash :: char where
  "backslash = CHR 0x5C"

definition lower_char :: "char \<Rightarrow> char" where
  "lower_char c =
     (if (65::nat) \<le> of_char c \<and> of_char c \<le> (90::nat) then char_of (of_char c + (32::nat)) else c)"

definition lower :: "string \<Rightarrow> string" where
  "lower s = map lower_char s"

fun match_literal :: "string \<Rightarrow> string \<Rightarrow> string option" where
  "match_literal [] s = Some s"
| "match_literal (c # cs) [] = None"
| "match_literal (c # cs) (x # xs) = (if c = x then match_literal cs xs else None)"

definition match_many1 :: "char \<Rightarrow> string \<Rightarrow> (string \<times> string) option" where
  "match_many1 c s =
     (if takeWhile (\<lambda>x. x = c) s = [] then None
      else Some (takeWhile (\<lambda>x. x = c) s, dropWhile (\<lambda>x. x = c) s))"

text \<open>A backslash followed by one or more copies of \<open>c\<close>: the matched text and the rest.\<close>

definition match_escaped_run :: "char \<Rightarrow> string \<Rightarrow> (string \<times> string) option" where
  "match_escaped_run c s =
     (case match_literal [backslash] s of
        None \<Rightarrow> None
      | Some r \<Rightarrow>
          (case match_many1 c r of
             None \<Rightarrow> None
           | Some (run, rest) \<Rightarrow> Some (backslash # run, rest)))"

text \<open>The pattern matched at the head of the text; the result is \<^verbatim>\<open>group(1)\<close>.\<close>

definition match_banner_here :: "string \<Rightarrow> string option" where
  "match_banner_here s =
     (case match_literal ''showing'' s of None \<Rightarrow> None | Some r1 \<Rightarrow>
      (case match_escaped_run CHR ''s'' r1 of None \<Rightarrow> None | Some (_, r2) \<Rightarrow>
       (case match_escaped_run CHR ''d'' r2 of None \<Rightarrow> None | Some (_, r3) \<Rightarrow>
        (case match_escaped_run CHR ''s'' r3 of None \<Rightarrow> None | Some (_, r4) \<Rightarrow>
         (case match_literal ''of'' r4 of None \<Rightarrow> None | Some r5 \<Rightarrow>
          (case match_escaped_run CHR ''s'' r5 of None \<Rightarrow> None | Some (_, r6) \<Rightarrow>
           (case match_escaped_run CHR ''d'' r6 of None \<Rightarrow> None | Some (g, _) \<Rightarrow> Some g)))))))"

text \<open>\<^verbatim>\<open>re.search\<close>: the leftmost position where the pattern matches.\<close>

fun re_search_banner :: "string \<Rightarrow> string option" where
  "re_search_banner [] = match_banner_here []"
| "re_search_banner (c # cs) =
     (case match_banner_here (c # cs) of
        Some g \<Rightarrow> Some g
      | None \<Rightarrow> re_search_banner cs)"

text \<open>
  \<^verbatim>\<open>int(s)\<close> on ASCII text: surrounding whitespace, an optional sign, then digits
  in which single underscores may separate digits. Anything else raises
  \<^verbatim>\<open>ValueError\<close>, here \<open>None\<close>.
\<close>

definition is_digit :: "char \<Rightarrow> bool" where
  "is_digit c \<longleftrightarrow> c \<in> set ''0123456789''"

definition digit_val :: "char \<Rightarrow> int" where
  "digit_val c = int (of_char c) - 48"

definition py_space :: "char \<Rightarrow> bool" where
  "py_space c \<longleftrightarrow>
     c \<in> set [CHR 0x09, CHR 0x0A, CHR 0x0B, CHR 0x0C, CHR 0x0D,
              CHR 0x1C, CHR 0x1D, CHR 0x1E, CHR 0x1F, CHR 0x20]"

definition py_strip :: "string \<Rightarrow> string" where
  "py_strip s = rev (dropWhile py_space (rev (dropWhile py_space s)))"

fun int_digits :: "int \<Rightarrow> string \<Rightarrow> int option" where
  "int_digits acc [] = Some acc"
| "int_digits acc [c] = (if is_digit c then Some (10 * acc + digit_val c) else None)"
| "int_digits acc (c # d # ds) =
     (if is_digit c then int_digits (10 * acc + digit_val c) (d # ds)
      else if c = CHR ''_'' \<and> is_digit d then int_digits (10 * acc + digit_val d) ds
      else None)"

definition int_unsigned :: "string \<Rightarrow> int option" where
  "int_unsigned s =
     (case s of
        [] \<Rightarrow> None
      | c # cs \<Rightarrow> if is_digit c then int_digits (digit_val c) cs else None)"

definition py_int :: "string \<Rightarrow> int option" where
  "py_int s =
     (case py_strip s of
        [] \<Rightarrow> None
      | c # cs \<Rightarrow>
          if c = CHR ''-'' then map_option uminus (int_unsigned cs)
          else if c = CHR ''+'' then int_unsigned cs
          else int_unsigned (c # cs))"

datatype py_error = ValueError

text \<open>
  The lines of \<^verbatim>\<open>main\<close> that choose \<^verbatim>\<open>target_count\<close> from
  \<^verbatim>\<open>document.body.innerText\<close>.
\<close>

definition detect_target_count :: "string \<Rightarrow> py_error + int" where
  "detect_target_count page_text =
     (case re_search_banner (lower page_text) of
        None \<Rightarrow> Inr 2849
      | Some g \<Rightarrow>
          (case py_int g of
             None \<Rightarrow> Inl ValueError
           | Some detected \<Rightarrow> if detected > 0 then Inr detected else Inr 2849))"

section \<open>Vocabulary of the statements\<close>

text \<open>
  The first cells that the rows of one read offer (rows without cells offer none), and
  the first cells offered in rounds \<open>1, \<dots>, n\<close> of a run, in the order of the reads.
\<close>

definition first_cells :: "string list list \<Rightarrow> string list" where
  "first_cells rows = map hd (filter (\<lambda>cs. cs \<noteq> []) rows)"

primrec offered_first_cells :: "(nat \<Rightarrow> document) \<Rightarrow> nat \<Rightarrow> string list" where
  "offered_first_cells page 0 = []"
| "offered_first_cells page (Suc n) =
     offered_first_cells page n @ first_cells (read_rows (page (Suc n)))"

definition nonempty_keys :: "string list \<Rightarrow> string list" where
  "nonempty_keys ks = filter (\<lambda>k. k \<noteq> []) ks"

text \<open>A list reduced to the first occurrence of each of its members, order kept.\<close>

fun first_occurrences :: "'a list \<Rightarrow> 'a list" where
  "first_occurrences [] = []"
| "first_occurrences (x # xs) = x # first_occurrences (filter (\<lambda>y. y \<noteq> x) xs)"

text \<open>
  The resolver as the specification words it: the first scrollable element on the way
  up from the table, the body excluded; failing that, the first scrollable element of
  the table's subtree in depth-first order.
\<close>

definition resolver_as_specified :: "table_el \<Rightarrow> element option" where
  "resolver_as_specified t =
     (case find scrollable (takeWhile (\<lambda>e. \<not> is_body e) (chain t)) of
        Some e \<Rightarrow> Some e
      | None \<Rightarrow> find scrollable (descendants t))"

text \<open>What a run has established after any number of rounds.\<close>

definition ledger_inv :: "(nat \<Rightarrow> document) \<Rightarrow> harvest_state \<Rightarrow> bool" where
  "ledger_inv page st \<longleftrightarrow>
     map item_id (products st) =
       first_occurrences (nonempty_keys (offered_first_cells page (attempts st))) \<and>
     seen_ids st = set (nonempty_keys (offered_first_cells page (attempts st))) \<and>
     last_count st = length (products st)"

text \<open>The part of the state that the hint cannot reach.\<close>

definition core :: "harvest_state \<Rightarrow> item list \<times> string set \<times> nat \<times> nat \<times> nat" where
  "core st = (products st, seen_ids st, attempts st, no_progress_rounds st, last_count st)"

section \<open>Concrete pages\<close>

definition plain_element :: "string \<Rightarrow> element" where
  "plain_element name =
     \<lparr> tag = name, is_body = False, overflowY = ''visible'', scrollTop = 0,
       scrollHeight = 300, clientHeight = 300 \<rparr>"

definition body_element :: element where
  "body_element = (plain_element ''body'')\<lparr>is_body := True\<rparr>"

text \<open>A scrolling \<^verbatim>\<open>div\<close> ten units high over seventy units of content.\<close>

definition viewport :: "int \<Rightarrow> element" where
  "viewport pos =
     \<lparr> tag = ''div'', is_body = False, overflowY = ''auto'', scrollTop = pos,
       scrollHeight = 70, clientHeight = 10 \<rparr>"

definition visible_row :: "string list \<Rightarrow> tr" where
  "visible_row texts = \<lparr> offsetParent_null = False, tds = texts \<rparr>"

definition page_of :: "tr list \<Rightarrow> element list \<Rightarrow> element list \<Rightarrow> document" where
  "page_of rows ancestors inside =
     \<lparr> table = Some \<lparr> trs = rows, chain = plain_element ''table'' # ancestors,
                        descendants = inside \<rparr>,
       body_text = [] \<rparr>"

text \<open>An empty table with nothing scrollable around or inside it, the same in every round.\<close>

definition unscrollable_page :: "nat \<Rightarrow> document" where
  "unscrollable_page n = page_of [] [body_element] []"

text \<open>A scroller that is back at the top whenever the scraper looks.\<close>

definition endless_page :: "nat \<Rightarrow> document" where
  "endless_page n = page_of [visible_row [''a'', ''b'']] [viewport 0, body_element] []"

text \<open>
  One fully rendered row; the viewport moves down ten units per round and reaches its
  maximum of sixty in round 6.
\<close>

definition tall_page :: "nat \<Rightarrow> document" where
  "tall_page n =
     page_of [visible_row [''a'', ''b'']] [viewport (min (10 * (int n - 1)) 60), body_element] []"


section \<open>First occurrences and the row loop\<close>

lemma first_occurrences_filter:
  "first_occurrences (filter P xs) = filter P (first_occurrences xs)"
proof (induction xs rule: first_occurrences.induct)
  case 1
  show ?case by simp
next
  case (2 x xs)
  have swap: "filter (\<lambda>y. y \<noteq> x) (filter P xs) = filter P (filter (\<lambda>y. y \<noteq> x) xs)"
    by (simp add: conj_commute)
  show ?case
  proof (cases "P x")
    case True
    then show ?thesis using "2.IH" by (simp add: conj_commute)
  next
    case False
    then have "filter P xs = filter P (filter (\<lambda>y. y \<noteq> x) xs)"
      by (auto intro: filter_cong)
    with False show ?thesis using "2.IH" by simp
  qed
qed

lemma set_first_occurrences: "set (first_occurrences xs) = set xs"
  by (induction xs rule: first_occurrences.induct) (auto simp: first_occurrences_filter)

lemma distinct_first_occurrences: "distinct (first_occurrences xs)"
  by (induction xs rule: first_occurrences.induct) (auto simp: first_occurrences_filter)

lemma length_first_occurrences: "length (first_occurrences xs) = card (set xs)"
  using distinct_card [OF distinct_first_occurrences [of xs]]
  by (simp add: set_first_occurrences)

lemma first_occurrences_append:
  "first_occurrences (xs @ ys) =
     first_occurrences xs @ first_occurrences (filter (\<lambda>y. y \<notin> set xs) ys)"
proof (induction xs arbitrary: ys rule: first_occurrences.induct)
  case 1
  show ?case by simp
next
  case (2 x xs)
  have "filter (\<lambda>y. y \<notin> set (filter (\<lambda>y. y \<noteq> x) xs)) (filter (\<lambda>y. y \<noteq> x) ys)
        = filter (\<lambda>y. y \<notin> set (x # xs)) ys"
    by (auto intro: filter_cong)
  then show ?case using "2.IH" [of "filter (\<lambda>y. y \<noteq> x) ys"] by simp
qed


lemma collect_rows_seen:
  "snd (collect_rows rows seen acc) = seen \<union> set (nonempty_keys (first_cells rows))"
proof (induction rows arbitrary: seen acc)
  case Nil
  show ?case by (simp add: nonempty_keys_def first_cells_def)
next
  case (Cons cs rest)
  show ?case
  proof (cases cs)
    case Nil
    then show ?thesis using Cons.IH by (simp add: nonempty_keys_def first_cells_def)
  next
    case (Cons k more)
    then show ?thesis using Cons.IH by (auto simp: nonempty_keys_def first_cells_def)
  qed
qed

lemma collect_rows_ids:
  "map item_id (fst (collect_rows rows seen acc)) =
     map item_id acc @
     first_occurrences (filter (\<lambda>k. k \<notin> seen) (nonempty_keys (first_cells rows)))"
proof (induction rows arbitrary: seen acc)
  case Nil
  show ?case by (simp add: nonempty_keys_def first_cells_def)
next
  case (Cons cs rest)
  show ?case
  proof (cases cs)
    case Nil
    then show ?thesis using Cons.IH by (simp add: nonempty_keys_def first_cells_def)
  next
    case (Cons k more)
    have new: "filter (\<lambda>y. y \<noteq> k) (filter (\<lambda>k. k \<notin> seen) ks) = filter (\<lambda>y. y \<notin> insert k seen) ks" for ks
      by (auto intro: filter_cong)
    show ?thesis
    proof (cases "k = [] \<or> k \<in> seen")
      case True
      then show ?thesis using Cons Cons.IH by (auto simp: nonempty_keys_def first_cells_def)
    next
      case False
      then show ?thesis using Cons Cons.IH [of "insert k seen" "acc @ [make_item k cs]"] new [of "nonempty_keys (first_cells rest)"]
        by (simp add: nonempty_keys_def first_cells_def make_item_def)
    qed
  qed
qed


section \<open>Rounds and loop invariants\<close>

lemma round_body_attempts: "attempts (round_body page tc st) = Suc (attempts st)"
  by (simp add: round_body_def Let_def split_beta progress_accounting_def report_progress_def)

lemma round_body_seen:
  "seen_ids (round_body page tc st) =
     seen_ids st \<union> set (nonempty_keys (first_cells (read_rows (page (Suc (attempts st))))))"
  by (simp add: round_body_def Let_def split_beta progress_accounting_def report_progress_def
      extract_new_products_def collect_rows_seen)

lemma round_body_products:
  "products (round_body page tc st) =
     products st @ fst (extract_new_products (page (Suc (attempts st))) (seen_ids st))"
  by (simp add: round_body_def Let_def split_beta progress_accounting_def report_progress_def)

lemma round_body_last_count:
  "last_count st = length (products st) \<Longrightarrow>
   last_count (round_body page tc st) = length (products (round_body page tc st))"
  by (simp add: round_body_def Let_def split_beta progress_accounting_def report_progress_def)


lemma round_body_printed_no_stopping:
  "Stopping \<in> set (printed (round_body page tc st)) \<longleftrightarrow> Stopping \<in> set (printed st)"
  by (simp add: round_body_def Let_def split_beta progress_accounting_def report_progress_def)

lemma harvest_loop_invariant:
  assumes "P st"
    and "\<And>s. P s \<Longrightarrow> attempts s < safety_ceiling \<Longrightarrow> P (round_body page tc s)"
    and "\<And>s m. P s \<Longrightarrow> P (s\<lparr>printed := m\<rparr>)"
  shows "P (snd (harvest_loop page tc st))"
  using assms
proof (induction page tc st rule: harvest_loop.induct)
  case (1 page tc st)
  show ?case
  proof (cases "attempts st < safety_ceiling")
    case False
    then show ?thesis using "1.prems"(1) by (simp add: harvest_loop.simps [of page tc st])
  next
    case True
    note step = "1.prems"(2) [OF "1.prems"(1) True]
    show ?thesis
    proof (cases "should_stop (fst (scroll_step (page (Suc (attempts st)))))
                        (no_progress_rounds (round_body page tc st))")
      case stop: True
      with True have eq: "harvest_loop page tc st =
          (Exhausted, (round_body page tc st)\<lparr>printed := printed (round_body page tc st) @ [Stopping]\<rparr>)"
        by (simp add: harvest_loop.simps [of page tc st])
      show ?thesis unfolding eq snd_conv by (rule "1.prems"(3) [OF step])
    next
      case go: False
      with True have eq: "harvest_loop page tc st = harvest_loop page tc (round_body page tc st)"
        by (simp add: harvest_loop.simps [of page tc st])
      show ?thesis unfolding eq
        by (rule "1.IH" [OF True go step "1.prems"(2) "1.prems"(3)])
    qed
  qed
qed

lemma harvest_loop_rounds_le:
  "attempts st \<le> safety_ceiling \<Longrightarrow> attempts (snd (harvest_loop page tc st)) \<le> safety_ceiling"
  by (rule harvest_loop_invariant [where P = "\<lambda>s. attempts s \<le> safety_ceiling"])
     (simp_all add: round_body_attempts)

lemma ledger_inv_initial: "ledger_inv page (initial_state tc)"
  by (simp add: ledger_inv_def initial_state_def nonempty_keys_def)

lemma ledger_inv_round:
  assumes "ledger_inv page st"
  shows "ledger_inv page (round_body page tc st)"
proof -
  let ?ks = "nonempty_keys (offered_first_cells page (attempts st))"
  let ?new = "nonempty_keys (first_cells (read_rows (page (Suc (attempts st)))))"
  have split: "nonempty_keys (offered_first_cells page (Suc (attempts st))) = ?ks @ ?new"
    by (simp add: nonempty_keys_def)
  have ids: "map item_id (products (round_body page tc st)) =
      first_occurrences ?ks @ first_occurrences (filter (\<lambda>k. k \<notin> set ?ks) ?new)"
    using assms
    by (simp add: round_body_products extract_new_products_def collect_rows_ids ledger_inv_def)
  have seen: "seen_ids (round_body page tc st) = set ?ks \<union> set ?new"
    using assms by (simp add: round_body_seen ledger_inv_def)
  have cnt: "last_count (round_body page tc st) = length (products (round_body page tc st))"
    using assms by (simp add: round_body_last_count ledger_inv_def)
  show ?thesis
    unfolding ledger_inv_def round_body_attempts split
    using ids seen cnt by (simp add: first_occurrences_append)
qed

lemma ledger_inv_printed: "ledger_inv page st \<Longrightarrow> ledger_inv page (st\<lparr>printed := m\<rparr>)"
  by (simp add: ledger_inv_def)

lemma ledger_inv_loop:
  "ledger_inv page st \<Longrightarrow> ledger_inv page (snd (harvest_loop page tc st))"
  by (rule harvest_loop_invariant [where P = "ledger_inv page"])
     (simp_all add: ledger_inv_round ledger_inv_printed)

lemma harvest_loop_to_ceiling:
  assumes "attempts st \<le> safety_ceiling"
    and "\<forall>n. attempts st < n \<and> n \<le> safety_ceiling \<longrightarrow> \<not> at_bottom (fst (scroll_step (page n)))"
  shows "fst (harvest_loop page tc st) = SafetyCeilingReached \<and>
         attempts (snd (harvest_loop page tc st)) = safety_ceiling"
  using assms
proof (induction page tc st rule: harvest_loop.induct)
  case (1 page tc st)
  show ?case
  proof (cases "attempts st < safety_ceiling")
    case False
    then show ?thesis using "1.prems"(1) by (simp add: harvest_loop.simps [of page tc st])
  next
    case True
    then have "\<not> at_bottom (fst (scroll_step (page (Suc (attempts st)))))"
      using "1.prems"(2) by simp
    then have go: "\<not> should_stop (fst (scroll_step (page (Suc (attempts st)))))
                        (no_progress_rounds (round_body page tc st))"
      by (simp add: should_stop_def)
    with True have eq: "harvest_loop page tc st = harvest_loop page tc (round_body page tc st)"
      by (simp add: harvest_loop.simps [of page tc st])
    have le: "attempts (round_body page tc st) \<le> safety_ceiling"
      using True by (simp add: round_body_attempts)
    have rest: "\<forall>n. attempts (round_body page tc st) < n \<and> n \<le> safety_ceiling \<longrightarrow>
                  \<not> at_bottom (fst (scroll_step (page n)))"
      using "1.prems"(2) by (simp add: round_body_attempts)
    show ?thesis unfolding eq by (rule "1.IH" [OF True go le rest])
  qed
qed

lemma harvest_loop_stopping:
  assumes "Stopping \<notin> set (printed st)"
  shows "Stopping \<in> set (printed (snd (harvest_loop page tc st))) \<longleftrightarrow>
         fst (harvest_loop page tc st) = Exhausted"
  using assms
proof (induction page tc st rule: harvest_loop.induct)
  case (1 page tc st)
  show ?case
  proof (cases "attempts st < safety_ceiling")
    case False
    then show ?thesis using "1.prems" by (simp add: harvest_loop.simps [of page tc st])
  next
    case True
    show ?thesis
    proof (cases "should_stop (fst (scroll_step (page (Suc (attempts st)))))
                        (no_progress_rounds (round_body page tc st))")
      case stop: True
      with True show ?thesis by (simp add: harvest_loop.simps [of page tc st])
    next
      case go: False
      with True have eq: "harvest_loop page tc st = harvest_loop page tc (round_body page tc st)"
        by (simp add: harvest_loop.simps [of page tc st])
      have "Stopping \<notin> set (printed (round_body page tc st))"
        using "1.prems" by (simp add: round_body_printed_no_stopping)
      then show ?thesis unfolding eq by (rule "1.IH" [OF True go])
    qed
  qed
qed

lemma core_round_body:
  "core st = core st' \<Longrightarrow> core (round_body page tc st) = core (round_body page tc' st')"
  by (simp add: core_def round_body_def Let_def split_beta progress_accounting_def
      report_progress_def)

lemma harvest_loop_hint_free:
  assumes "core st = core st'"
  shows "fst (harvest_loop page tc st) = fst (harvest_loop page tc' st') \<and>
         core (snd (harvest_loop page tc st)) = core (snd (harvest_loop page tc' st'))"
  using assms
proof (induction page tc st arbitrary: st' rule: harvest_loop.induct)
  case (1 page tc st)
  have att: "attempts st' = attempts st" using "1.prems" by (simp add: core_def)
  note rb = core_round_body [OF "1.prems", of page tc tc']
  then have np: "no_progress_rounds (round_body page tc' st') =
                 no_progress_rounds (round_body page tc st)"
    by (simp add: core_def)
  show ?case
  proof (cases "attempts st < safety_ceiling")
    case False
    then show ?thesis using "1.prems" att
      by (simp add: harvest_loop.simps [of page tc st] harvest_loop.simps [of page tc' st'])
  next
    case True
    show ?thesis
    proof (cases "should_stop (fst (scroll_step (page (Suc (attempts st)))))
                        (no_progress_rounds (round_body page tc st))")
      case stop: True
      with True att np rb show ?thesis
        by (simp add: harvest_loop.simps [of page tc st] harvest_loop.simps [of page tc' st']
            core_def)
    next
      case go: False
      with True have eq: "harvest_loop page tc st = harvest_loop page tc (round_body page tc st)"
        by (simp add: harvest_loop.simps [of page tc st])
      from go True att np
      have eq': "harvest_loop page tc' st' = harvest_loop page tc' (round_body page tc' st')"
        by (simp add: harvest_loop.simps [of page tc' st'])
      show ?thesis unfolding eq eq' by (rule "1.IH" [OF True go rb])
    qed
  qed
qed







section \<open>Runs on the concrete pages\<close>

lemmas page_defs = page_of_def plain_element_def body_element_def viewport_def visible_row_def

lemmas scroll_defs = scroll_step_def getScroller_def query_divs_def scrollable_def

lemma scroll_unscrollable: "fst (scroll_step (unscrollable_page n)) = NoScroller"
  by (simp add: unscrollable_page_def page_defs scroll_defs)

lemma scroll_endless: "fst (scroll_step (endless_page n)) = Scrolled 0 10 60"
  by (simp add: endless_page_def page_defs scroll_defs)



lemma run_rounds_le:
  "rounds (scroll_and_collect_all page tc) \<le> safety_ceiling"
  using harvest_loop_rounds_le [of "initial_state tc" page tc]
  by (simp add: scroll_and_collect_all_def split_beta initial_state_def)

lemma run_to_ceiling:
  assumes "\<forall>n. 1 \<le> n \<and> n \<le> safety_ceiling \<longrightarrow> \<not> at_bottom (fst (scroll_step (page n)))"
  shows "rounds (scroll_and_collect_all page tc) = safety_ceiling \<and>
         reason (scroll_and_collect_all page tc) = SafetyCeilingReached \<and>
         Stopping \<notin> set (transcript (scroll_and_collect_all page tc))"
proof -
  let ?st = "initial_state tc"
  have a: "attempts ?st \<le> safety_ceiling" by (simp add: initial_state_def)
  have b: "\<forall>n. attempts ?st < n \<and> n \<le> safety_ceiling \<longrightarrow> \<not> at_bottom (fst (scroll_step (page n)))"
    using assms by (simp add: initial_state_def Suc_le_eq)
  have c: "Stopping \<notin> set (printed ?st)" by (simp add: initial_state_def)
  from harvest_loop_to_ceiling [OF a b, of tc] harvest_loop_stopping [OF c, of page tc]
  show ?thesis by (simp add: scroll_and_collect_all_def split_beta)
qed




lemma offered_tall: "offered_first_cells tall_page n = replicate n ''a''"
  by (induction n)
     (simp_all add: tall_page_def page_defs read_rows_def first_cells_def trim_def js_space_def
       replicate_append_same)

lemma run_ledger:
  "ledger_inv page (snd (harvest_loop page tc (initial_state tc)))"
  by (rule ledger_inv_loop [OF ledger_inv_initial])




section \<open>Claims about the harvest loop\<close>

text \<open>
  Claim C1 says that a table for which the scroll step reports "no-scroller" in every
  round is harvested in at most 6 rounds and ends as exhausted. The loop sets
  \<^verbatim>\<open>at_bottom\<close> only when the scroll result is ok, and it breaks only when
  \<^verbatim>\<open>at_bottom\<close> holds, so for such a table the \<^verbatim>\<open>break\<close> is never
  taken: on the empty, unscrollable table the run takes all 20000 rounds and ends at
  the safety ceiling.
\<close>

theorem unscrollable_table_runs_to_ceiling:
  "fst (scroll_step (unscrollable_page 1)) = NoScroller \<and>
   rounds (scroll_and_collect_all unscrollable_page 2849) = 20000 \<and>
   reason (scroll_and_collect_all unscrollable_page 2849) = SafetyCeilingReached"
  using run_to_ceiling [of unscrollable_page 2849]
  by (simp add: scroll_unscrollable safety_ceiling_def)

text \<open>
  Claim C3: no run takes more than 20000 rounds; and when the scroll step never reports
  a position at the bottom, the run ends at exactly round 20000, by the safety ceiling,
  without the line that announces exhaustion. (Of the two conditions of the claim, never
  at the bottom and never stalling, the first alone suffices.)
\<close>

theorem safety_ceiling_bound:
  "rounds (scroll_and_collect_all page tc) \<le> 20000 \<and>
   ((\<forall>n. 1 \<le> n \<and> n \<le> 20000 \<longrightarrow> \<not> at_bottom (fst (scroll_step (page n)))) \<longrightarrow>
      rounds (scroll_and_collect_all page tc) = 20000 \<and>
      reason (scroll_and_collect_all page tc) = SafetyCeilingReached \<and>
      Stopping \<notin> set (transcript (scroll_and_collect_all page tc)))"
  using run_rounds_le [of page tc] run_to_ceiling [of page tc]
  by (simp add: safety_ceiling_def)

theorem safety_ceiling_bound_witness:
  "rounds (scroll_and_collect_all endless_page 2849) = 20000 \<and>
   reason (scroll_and_collect_all endless_page 2849) = SafetyCeilingReached \<and>
   Stopping \<notin> set (transcript (scroll_and_collect_all endless_page 2849))"
  using safety_ceiling_bound [of endless_page 2849]
  by (simp add: scroll_endless)

text \<open>
  Claim C2: whatever the page shows, the ids of the harvested records are the non-empty
  first cells offered during the rounds of the run, each once, in the order of their
  first encounter; no id is empty; and the number of records is the number of distinct
  non-empty first cells offered.
\<close>

theorem harvested_keys_first_encounter:
  "map item_id (harvested (scroll_and_collect_all page tc)) =
     first_occurrences
       (nonempty_keys (offered_first_cells page (rounds (scroll_and_collect_all page tc)))) \<and>
   distinct (map item_id (harvested (scroll_and_collect_all page tc))) \<and>
   set (map item_id (harvested (scroll_and_collect_all page tc))) =
     {k \<in> set (offered_first_cells page (rounds (scroll_and_collect_all page tc))). k \<noteq> []} \<and>
   length (harvested (scroll_and_collect_all page tc)) =
     card {k \<in> set (offered_first_cells page (rounds (scroll_and_collect_all page tc))). k \<noteq> []}"
proof -
  let ?run = "scroll_and_collect_all page tc"
  let ?keys = "nonempty_keys (offered_first_cells page (rounds ?run))"
  have ids: "map item_id (harvested ?run) = first_occurrences ?keys"
    using run_ledger [of page tc]
    by (simp add: ledger_inv_def scroll_and_collect_all_def split_beta)
  have keys: "set ?keys = {k \<in> set (offered_first_cells page (rounds ?run)). k \<noteq> []}"
    by (auto simp: nonempty_keys_def)
  have "length (harvested ?run) = length (map item_id (harvested ?run))"
    by simp
  also have "\<dots> = card (set ?keys)"
    by (simp only: ids length_first_occurrences)
  finally have len: "length (harvested ?run) = card (set ?keys)" .
  show ?thesis
    using ids len keys distinct_first_occurrences [of ?keys] set_first_occurrences [of ?keys]
    by simp
qed

theorem harvested_keys_first_encounter_witness:
  "map item_id (harvested (scroll_and_collect_all tall_page 2849)) =
     first_occurrences (replicate (rounds (scroll_and_collect_all tall_page 2849)) ''a'')"
  using harvested_keys_first_encounter [of tall_page 2849]
  by (simp add: offered_tall nonempty_keys_def)

text \<open>
  Claim C8: two runs on the same page that differ only in the target-count hint return
  the same records, take the same number of rounds and end for the same reason. The
  hint reaches only the progress lines.
\<close>

theorem hint_does_not_steer_the_run:
  "harvested (scroll_and_collect_all page tc) = harvested (scroll_and_collect_all page tc') \<and>
   rounds (scroll_and_collect_all page tc) = rounds (scroll_and_collect_all page tc') \<and>
   reason (scroll_and_collect_all page tc) = reason (scroll_and_collect_all page tc')"
proof -
  have "core (initial_state tc) = core (initial_state tc')"
    by (simp add: core_def initial_state_def)
  from harvest_loop_hint_free [OF this, of page tc tc']
  show ?thesis by (simp add: scroll_and_collect_all_def split_beta core_def)
qed

theorem hint_does_not_steer_the_run_witness:
  "harvested (scroll_and_collect_all tall_page 0) = harvested (scroll_and_collect_all tall_page 2849) \<and>
   rounds (scroll_and_collect_all tall_page 0) = rounds (scroll_and_collect_all tall_page 2849) \<and>
   reason (scroll_and_collect_all tall_page 0) = reason (scroll_and_collect_all tall_page 2849)"
  by (rule hint_does_not_steer_the_run [of tall_page 0 2849])




end
